theory Spec2Isabelle
  imports Main "HOL-Library.Sublist" "HOL-Library.Char_ord" "HOL-Library.List_Lexorder"
begin

section \<open>The trie of \<^verbatim>\<open>Trie.py\<close>\<close>

text \<open>
  A \<^verbatim>\<open>Node\<close> object holds a list \<^verbatim>\<open>link\<close> of 27 optional children (slot 0 is the
  end-of-sentence slot, slots 1..26 the letters a..z) and the counters \<^verbatim>\<open>frequency\<close> and
  \<^verbatim>\<open>best_sub_frequency\<close>. Every node is created by \<^verbatim>\<open>Node()\<close> and stored in exactly one slot
  of exactly one parent, so the object graph is a tree and a node is modelled by its value.
  Python integers are unbounded, hence \<open>int\<close>. A Python string is modelled as a \<open>string\<close>;
  its characters are code points below 256, which covers the lowercase alphabet and every
  character whose slot index is in range.
\<close>

datatype error = IndexError

datatype node = Node (link: "node option list") (frequency: int) (best_sub_frequency: int)

text \<open>\<^verbatim>\<open>Node.__init__\<close>\<close>

definition new_node :: node where
  "new_node = Node (replicate 27 None) 0 0"

record CatsTrie =
  root :: node

definition ord :: "char \<Rightarrow> int" where
  "ord c = of_char c"

definition chr :: "int \<Rightarrow> char" where
  "chr i = char_of i"

text \<open>
  Python list indexing \<^verbatim>\<open>xs[i]\<close> on a list of length \<open>n\<close>: a negative index counts from the
  end, and an index outside \<open>-n..n-1\<close> raises \<^verbatim>\<open>IndexError\<close> (here \<open>None\<close>).
\<close>

definition py_pos :: "nat \<Rightarrow> int \<Rightarrow> nat option" where
  "py_pos n i =
     (if 0 \<le> i \<and> i < int n then Some (nat i)
      else if i < 0 \<and> 0 \<le> int n + i then Some (nat (int n + i))
      else None)"

subsection \<open>Insertion\<close>

text \<open>
  \<^verbatim>\<open>insert_recur_aux(current, key)\<close> mutates the subtree of \<^verbatim>\<open>current\<close> and returns an
  integer; the model returns the updated node together with that integer. In the recursive
  branch the local variable \<^verbatim>\<open>current\<close> is rebound to the child before the aggregate is
  updated, so the update is applied to the child and the fields of the node the function
  was called with are left as they were.
\<close>

fun insert_recur_aux :: "node \<Rightarrow> string \<Rightarrow> error + node \<times> int" where
  "insert_recur_aux current [] =
     (case py_pos (length (link current)) 0 of
        None \<Rightarrow> Inl IndexError
      | Some j \<Rightarrow>
          (let t = (case link current ! j of None \<Rightarrow> new_node | Some t \<Rightarrow> t);
               f = frequency t + 1;
               b = (if f > best_sub_frequency t then f else best_sub_frequency t)
           in Inr (Node ((link current)[j := Some (Node (link t) f b)])
                     (frequency current) (best_sub_frequency current), b)))"
| "insert_recur_aux current (c # key) =
     (case py_pos (length (link current)) (ord c - 97 + 1) of
        None \<Rightarrow> Inl IndexError
      | Some index \<Rightarrow>
          (let child = (case link current ! index of Some ch \<Rightarrow> ch | None \<Rightarrow> new_node)
           in case insert_recur_aux child key of
                Inl e \<Rightarrow> Inl e
              | Inr (child', sub_frequency) \<Rightarrow>
                  (let b = (if sub_frequency > best_sub_frequency child' then sub_frequency
                            else best_sub_frequency child')
                   in Inr (Node ((link current)[index := Some (Node (link child') (frequency child') b)])
                             (frequency current) (best_sub_frequency current), b))))"

text \<open>\<^verbatim>\<open>insert_recur\<close> discards the integer returned for the root.\<close>

definition insert_recur :: "CatsTrie \<Rightarrow> string \<Rightarrow> error + CatsTrie" where
  "insert_recur self key =
     (case insert_recur_aux (root self) key of
        Inl e \<Rightarrow> Inl e
      | Inr (current, sub_frequency) \<Rightarrow> Inr (self\<lparr>root := current\<rparr>))"

text \<open>The loop of the constructor, and the constructor \<^verbatim>\<open>CatsTrie.__init__\<close>.\<close>

fun insert_sentences :: "CatsTrie \<Rightarrow> string list \<Rightarrow> error + CatsTrie" where
  "insert_sentences self [] = Inr self"
| "insert_sentences self (sentence # sentences) =
     (case insert_recur self sentence of
        Inl e \<Rightarrow> Inl e
      | Inr self' \<Rightarrow> insert_sentences self' sentences)"

definition CatsTrie_init :: "string list \<Rightarrow> error + CatsTrie" where
  "CatsTrie_init sentences = insert_sentences \<lparr>root = new_node\<rparr> sentences"

subsection \<open>Queries\<close>

fun findNode_loop :: "node \<Rightarrow> string \<Rightarrow> error + node option" where
  "findNode_loop current [] = Inr (Some current)"
| "findNode_loop current (c # prompt) =
     (case py_pos (length (link current)) (ord c - 97 + 1) of
        None \<Rightarrow> Inl IndexError
      | Some index \<Rightarrow>
          (case link current ! index of
             Some ch \<Rightarrow> findNode_loop ch prompt
           | None \<Rightarrow> Inr None))"

definition findNode :: "CatsTrie \<Rightarrow> string \<Rightarrow> error + node option" where
  "findNode self prompt = findNode_loop (root self) prompt"

text \<open>
  The \<^verbatim>\<open>for i in range(1, 27)\<close> loop of \<^verbatim>\<open>autoCompleteAux\<close>. Its state is
  \<^verbatim>\<open>max_frequency\<close> and the pair \<^verbatim>\<open>best_sub_node\<close>, \<^verbatim>\<open>index\<close>, which are assigned together.
\<close>

fun best_sub_scan ::
  "node option list \<Rightarrow> nat list \<Rightarrow> int \<times> (node \<times> nat) option \<Rightarrow> error + int \<times> (node \<times> nat) option" where
  "best_sub_scan l [] acc = Inr acc"
| "best_sub_scan l (i # is) (max_frequency, best) =
     (case py_pos (length l) (int i) of
        None \<Rightarrow> Inl IndexError
      | Some j \<Rightarrow>
          (case l ! j of
             None \<Rightarrow> best_sub_scan l is (max_frequency, best)
           | Some ch \<Rightarrow>
               if best_sub_frequency ch > max_frequency
               then best_sub_scan l is (best_sub_frequency ch, Some (ch, i))
               else best_sub_scan l is (max_frequency, best)))"

lemma size_option_mem: "x \<in> set l \<Longrightarrow> size_option size x \<le> size_list (size_option size) l"
  by (induction l) auto

lemma size_child: "j < length l \<Longrightarrow> l ! j = Some ch \<Longrightarrow> size ch < size (Node l f b)"
proof -
  assume a: "j < length l" "l ! j = Some ch"
  then have "Some ch \<in> set l" by (metis nth_mem)
  from size_option_mem [OF this] show ?thesis by simp
qed

lemma py_pos_nat: "py_pos n (int i) = Some j \<longleftrightarrow> j = i \<and> i < n"
  by (auto simp: py_pos_def)

lemma best_sub_scan_child:
  "best_sub_scan l is (m, b) = Inr (m', Some (ch, i)) \<Longrightarrow>
     b = Some (ch, i) \<or> (i < length l \<and> l ! i = Some ch)"
  by (induction "is" arbitrary: m b) (auto simp: py_pos_nat split: option.splits if_splits)

text \<open>
  \<^verbatim>\<open>autoCompleteAux\<close>. The parameter \<^verbatim>\<open>max_frequency\<close> is overwritten with \<open>-1\<close> before it is
  read. The recursion descends into a child of the node, which is smaller.
\<close>

function autoCompleteAux :: "node \<Rightarrow> int \<Rightarrow> string \<Rightarrow> error + string option" where
  "autoCompleteAux node max_frequency word =
     (if list_all (\<lambda>l. l = None) (drop 1 (link node)) then Inr (Some word)
      else case best_sub_scan (link node) [1..<27] (-1, None) of
             Inl e \<Rightarrow> Inl e
           | Inr (max_frequency', best) \<Rightarrow>
               (case py_pos (length (link node)) 0 of
                  None \<Rightarrow> Inl IndexError
                | Some j \<Rightarrow>
                    if (case link node ! j of Some t \<Rightarrow> frequency t \<ge> max_frequency' | None \<Rightarrow> False)
                    then Inr (Some word)
                    else (case best of
                            Some (best_sub_node, index) \<Rightarrow>
                              autoCompleteAux best_sub_node max_frequency' (word @ [chr (int index + 96)])
                          | None \<Rightarrow> Inr None)))"
  by pat_completeness auto
termination
proof (relation "measure (\<lambda>(n, m, w). size n)", goal_cases)
  case 1
  show ?case by simp
next
  case (2 node max_frequency word x2 max_frequency' best j ba best_sub_node index)
  then show ?case
    using best_sub_scan_child [of "link node" "[1..<27]" "-1" None max_frequency' best_sub_node index]
    by (cases node) (auto dest: size_child)
qed

definition autoComplete :: "CatsTrie \<Rightarrow> string \<Rightarrow> error + string option" where
  "autoComplete self prompt =
     (case findNode self prompt of
        Inl e \<Rightarrow> Inl e
      | Inr None \<Rightarrow> Inr None
      | Inr (Some node) \<Rightarrow> autoCompleteAux node (- 1) prompt)"

text \<open>The script at the end of the file: build the trie, then query it.\<close>

definition build_and_query :: "string list \<Rightarrow> string \<Rightarrow> error + string option" where
  "build_and_query sentences prompt =
     (case CatsTrie_init sentences of
        Inl e \<Rightarrow> Inl e
      | Inr mycattrie \<Rightarrow> autoComplete mycattrie prompt)"

subsection \<open>The aggregate invariant\<close>

text \<open>
  The end-frequencies of the terminator nodes (nodes stored in slot 0 of their parent) in
  the subtree rooted at a node. The flag says whether the node itself is stored in slot 0
  of its parent; the root is not.
\<close>

function end_frequencies :: "bool \<Rightarrow> node \<Rightarrow> int list" where
  "end_frequencies is_terminator n =
     (if is_terminator then [frequency n] else []) @
     concat (map (\<lambda>i. case link n ! i of
                          None \<Rightarrow> []
                        | Some c \<Rightarrow> end_frequencies (i = 0) c)
                 [0..<length (link n)])"
  by pat_completeness auto
termination
proof (relation "measure (\<lambda>(t, n). size n)", goal_cases)
  case 1
  show ?case by simp
next
  case (2 is_terminator n i c)
  then show ?case by (cases n) (auto dest: size_child)
qed

text \<open>The maximum end-frequency in the subtree, 0 when it has no terminator node.\<close>

definition max_end_frequency :: "bool \<Rightarrow> node \<Rightarrow> int" where
  "max_end_frequency is_terminator n =
     (if end_frequencies is_terminator n = [] then 0
      else Max (set (end_frequencies is_terminator n)))"

text \<open>The invariant at a node and at every node below it.\<close>

function aggregate_ok :: "bool \<Rightarrow> node \<Rightarrow> bool" where
  "aggregate_ok is_terminator n \<longleftrightarrow>
     best_sub_frequency n = max_end_frequency is_terminator n \<and>
     list_all (\<lambda>i. case link n ! i of
                      None \<Rightarrow> True
                    | Some c \<Rightarrow> aggregate_ok (i = 0) c)
              [0..<length (link n)]"
  by pat_completeness auto
termination
proof (relation "measure (\<lambda>(t, n). size n)", goal_cases)
  case 1
  show ?case by simp
next
  case (2 is_terminator n i c)
  then show ?case by (cases n) (auto dest: size_child)
qed

text \<open>The invariant at every node strictly below a node.\<close>

definition descendants_ok :: "node \<Rightarrow> bool" where
  "descendants_ok n =
     list_all (\<lambda>i. case link n ! i of
                      None \<Rightarrow> True
                    | Some c \<Rightarrow> aggregate_ok (i = 0) c)
              [0..<length (link n)]"


declare end_frequencies.simps [simp del] aggregate_ok.simps [simp del]

text \<open>Auxiliary notions for the proofs.\<close>

definition end_set :: "bool \<Rightarrow> node \<Rightarrow> int set" where
  "end_set fl n = set (end_frequencies fl n)"

definition mx :: "bool \<Rightarrow> node \<Rightarrow> int" where
  "mx fl n = Max (insert 0 (end_set fl n))"

definition nonneg :: "bool \<Rightarrow> node \<Rightarrow> bool" where
  "nonneg fl n \<longleftrightarrow> (\<forall>x\<in>end_set fl n. 0 \<le> x)"

section \<open>Insertion maintains the aggregates below the root\<close>

lemma finite_end_set [simp]: "finite (end_set fl n)"
  by (simp add: end_set_def)

lemma end_set_iff:
  "x \<in> end_set fl n \<longleftrightarrow>
     (fl \<and> x = frequency n) \<or>
     (\<exists>i<length (link n). \<exists>c. link n ! i = Some c \<and> x \<in> end_set (i = 0) c)"
  unfolding end_set_def
  by (subst end_frequencies.simps) (force split: option.splits)

lemma end_set_True: "end_set True n = insert (frequency n) (end_set False n)"
proof -
  have "x \<in> end_set True n \<longleftrightarrow> x = frequency n \<or> x \<in> end_set False n" for x
    by (subst end_set_iff, subst (2) end_set_iff) simp
  then show ?thesis by blast
qed

lemma mx_ge: "x \<in> end_set fl n \<Longrightarrow> x \<le> mx fl n"
  by (simp add: mx_def)

lemma mx_nonneg: "0 \<le> mx fl n"
  by (simp add: mx_def)

lemma mx_in: "mx fl n = 0 \<or> mx fl n \<in> end_set fl n"
  using Max_in [of "insert 0 (end_set fl n)"] by (auto simp: mx_def)

lemma mx_eqI:
  assumes "\<And>x. x \<in> end_set fl n \<Longrightarrow> x \<le> m" "0 \<le> m" "m = 0 \<or> m \<in> end_set fl n"
  shows "mx fl n = m"
  unfolding mx_def using assms by (intro Max_eqI) auto

lemma mx_True: "mx True n = max (frequency n) (mx False n)"
proof (rule mx_eqI)
  fix x assume "x \<in> end_set True n"
  then show "x \<le> max (frequency n) (mx False n)"
    using mx_ge [of x False n] by (auto simp: end_set_True)
next
  show "0 \<le> max (frequency n) (mx False n)"
    using mx_nonneg [of False n] by simp
next
  show "max (frequency n) (mx False n) = 0 \<or> max (frequency n) (mx False n) \<in> end_set True n"
    using mx_in [of False n] by (auto simp: end_set_True max_def)
qed

lemma max_end_frequency_mx: "nonneg fl n \<Longrightarrow> max_end_frequency fl n = mx fl n"
proof -
  assume nn: "nonneg fl n"
  show ?thesis
  proof (cases "end_frequencies fl n = []")
    case True
    then show ?thesis by (simp add: max_end_frequency_def mx_def end_set_def)
  next
    case False
    then have ne: "end_set fl n \<noteq> {}" by (simp add: end_set_def)
    then have "0 \<le> Max (end_set fl n)"
      using nn Max_in [of "end_set fl n"] by (auto simp: nonneg_def)
    then have "Max (insert 0 (end_set fl n)) = Max (end_set fl n)"
      using ne by (simp add: max_def)
    then show ?thesis using False by (simp add: max_end_frequency_def mx_def end_set_def)
  qed
qed

lemma aggregate_ok_iff:
  "aggregate_ok fl n \<longleftrightarrow> best_sub_frequency n = max_end_frequency fl n \<and> descendants_ok n"
  by (subst aggregate_ok.simps) (simp add: descendants_ok_def)

lemma descendants_ok_iff:
  "descendants_ok n \<longleftrightarrow> (\<forall>i<length (link n). \<forall>c. link n ! i = Some c \<longrightarrow> aggregate_ok (i = 0) c)"
  by (auto simp: descendants_ok_def list_all_iff split: option.splits)

lemma end_set_childI:
  "i < length (link n) \<Longrightarrow> link n ! i = Some c \<Longrightarrow> x \<in> end_set (i = 0) c \<Longrightarrow> x \<in> end_set fl n"
  by (subst end_set_iff) blast

lemma nonneg_child:
  "nonneg fl n \<Longrightarrow> i < length (link n) \<Longrightarrow> link n ! i = Some c \<Longrightarrow> nonneg (i = 0) c"
  unfolding nonneg_def by (blast intro: end_set_childI)

lemma end_set_FalseD: "x \<in> end_set False n \<Longrightarrow> x \<in> end_set fl n"
  by (subst (asm) end_set_iff, subst end_set_iff) blast

lemma nonneg_False: "nonneg fl n \<Longrightarrow> nonneg False n"
  unfolding nonneg_def by (blast intro: end_set_FalseD)

lemma new_node_sel:
  "link new_node = replicate 27 None" "frequency new_node = 0" "best_sub_frequency new_node = 0"
  by (simp_all add: new_node_def)

lemma new_node_child: "i < length (link new_node) \<Longrightarrow> link new_node ! i = None"
  by (simp only: new_node_sel length_replicate nth_replicate)

lemma new_node_end_set_iff: "x \<in> end_set fl new_node \<longleftrightarrow> fl \<and> x = 0"
proof -
  have no_child: "\<not> (i < length (link new_node) \<and> link new_node ! i = Some c)" for i c
  proof
    assume "i < length (link new_node) \<and> link new_node ! i = Some c"
    then have i: "i < length (link new_node)" and c: "link new_node ! i = Some c"
      by blast+
    from new_node_child [OF i] c show False by simp
  qed
  have "x \<in> end_set fl new_node \<longleftrightarrow>
     (fl \<and> x = frequency new_node) \<or>
     (\<exists>i<length (link new_node). \<exists>c. link new_node ! i = Some c \<and> x \<in> end_set (i = 0) c)"
    by (rule end_set_iff)
  also have "\<dots> \<longleftrightarrow> fl \<and> x = 0"
    using no_child by (simp only: new_node_sel(2)) blast
  finally show ?thesis .
qed

lemma new_node_ok: "aggregate_ok fl new_node \<and> nonneg fl new_node"
proof -
  have nn: "nonneg fl new_node"
    by (simp add: nonneg_def new_node_end_set_iff)
  have "mx fl new_node = 0"
    by (rule mx_eqI) (simp_all add: new_node_end_set_iff)
  moreover have "descendants_ok new_node"
    using new_node_child by (simp only: descendants_ok_iff) simp
  ultimately show ?thesis
    using nn by (simp add: aggregate_ok_iff max_end_frequency_mx new_node_sel)
qed

text \<open>Replacing one slot by a child whose aggregate did not decrease.\<close>

lemma slot_update:
  assumes j: "j < length (link n)"
    and dn: "descendants_ok n" and nn: "nonneg False n"
    and child: "child = (case link n ! j of Some ch \<Rightarrow> ch | None \<Rightarrow> new_node)"
    and c: "aggregate_ok (j = 0) c" "nonneg (j = 0) c"
    and mono: "best_sub_frequency child \<le> best_sub_frequency c"
    and n': "n' = Node ((link n)[j := Some c]) (frequency n) (best_sub_frequency n)"
  shows "descendants_ok n' \<and> nonneg False n' \<and>
         mx False n' = max (mx False n) (best_sub_frequency c)"
proof -
  have bc: "best_sub_frequency c = mx (j = 0) c"
    using c by (simp add: aggregate_ok_iff max_end_frequency_mx)
  have mem: "x \<in> end_set False n' \<longleftrightarrow>
      x \<in> end_set (j = 0) c \<or>
      (\<exists>i<length (link n). i \<noteq> j \<and> (\<exists>d. link n ! i = Some d \<and> x \<in> end_set (i = 0) d))" for x
    using j by (subst end_set_iff) (auto simp: n' nth_list_update)
  have d: "descendants_ok n'"
    using dn c(1) j by (auto simp: descendants_ok_iff n' nth_list_update)
  have nn': "nonneg False n'"
    unfolding nonneg_def
  proof
    fix x assume "x \<in> end_set False n'"
    then consider "x \<in> end_set (j = 0) c"
      | i d where "i < length (link n)" "link n ! i = Some d" "x \<in> end_set (i = 0) d"
      by (auto simp: mem)
    then show "0 \<le> x"
    proof cases
      case 1 then show ?thesis using c(2) by (simp add: nonneg_def)
    next
      case 2 then show ?thesis using nonneg_child [OF nn 2(1,2)] by (simp add: nonneg_def)
    qed
  qed
  have old: "mx (j = 0) d \<le> mx (j = 0) c" if "link n ! j = Some d" for d
  proof -
    have "aggregate_ok (j = 0) d" using dn j that by (simp add: descendants_ok_iff)
    moreover have "nonneg (j = 0) d" using nonneg_child [OF nn j that] .
    ultimately have "best_sub_frequency d = mx (j = 0) d"
      by (simp add: aggregate_ok_iff max_end_frequency_mx)
    then show ?thesis using mono that bc by (simp add: child)
  qed
  have "mx False n' = max (mx False n) (mx (j = 0) c)"
  proof (rule mx_eqI)
    fix x assume "x \<in> end_set False n'"
    then consider "x \<in> end_set (j = 0) c"
      | i d where "i < length (link n)" "link n ! i = Some d" "x \<in> end_set (i = 0) d"
      by (auto simp: mem)
    then show "x \<le> max (mx False n) (mx (j = 0) c)"
    proof cases
      case 1 then show ?thesis using mx_ge [of x "j = 0" c] by simp
    next
      case 2
      then have "x \<in> end_set False n" by (subst end_set_iff) blast
      then show ?thesis using mx_ge [of x False n] by simp
    qed
  next
    show "0 \<le> max (mx False n) (mx (j = 0) c)" using mx_nonneg [of False n] by simp
  next
    show "max (mx False n) (mx (j = 0) c) = 0 \<or> max (mx False n) (mx (j = 0) c) \<in> end_set False n'"
    proof (cases "mx False n \<le> mx (j = 0) c")
      case True
      then show ?thesis using mx_in [of "j = 0" c] by (auto simp: mem max_def)
    next
      case False
      then have m: "max (mx False n) (mx (j = 0) c) = mx False n" by simp
      from mx_in [of False n] show ?thesis
      proof
        assume "mx False n = 0" then show ?thesis using m by simp
      next
        assume "mx False n \<in> end_set False n"
        then obtain i d where id: "i < length (link n)" "link n ! i = Some d" "mx False n \<in> end_set (i = 0) d"
          by (subst (asm) end_set_iff) blast
        have "i \<noteq> j"
        proof
          assume "i = j"
          then have "mx False n \<le> mx (j = 0) d" using id mx_ge by blast
          also have "\<dots> \<le> mx (j = 0) c" using old id \<open>i = j\<close> by simp
          finally show False using False by simp
        qed
        then show ?thesis using id m by (auto simp: mem)
      qed
    qed
  qed
  then show ?thesis using d nn' bc by simp
qed

lemma mx_flag: "mx fl n = (if fl then max (frequency n) (mx False n) else mx False n)"
  by (simp add: mx_True)

lemma nonneg_flag: "nonneg fl n \<longleftrightarrow> (fl \<longrightarrow> 0 \<le> frequency n) \<and> nonneg False n"
proof (cases fl)
  case True
  then show ?thesis by (simp add: nonneg_def end_set_True)
next
  case False
  then show ?thesis by simp
qed

lemma end_set_False_cong: "link a = link b \<Longrightarrow> end_set False a = end_set False b"
proof -
  assume l: "link a = link b"
  have "x \<in> end_set False a \<longleftrightarrow> x \<in> end_set False b" for x
    by (subst end_set_iff, subst (2) end_set_iff) (simp add: l)
  then show ?thesis by blast
qed

lemma mx_False_cong: "link a = link b \<Longrightarrow> mx False a = mx False b"
  by (simp add: mx_def end_set_False_cong [of a b])

lemma nonneg_False_cong: "link a = link b \<Longrightarrow> nonneg False a = nonneg False b"
  by (simp add: nonneg_def end_set_False_cong [of a b])

lemma descendants_ok_cong: "link a = link b \<Longrightarrow> descendants_ok a = descendants_ok b"
  by (simp add: descendants_ok_iff)

lemma child_ok:
  assumes "j < length (link n)" "descendants_ok n" "nonneg False n"
    and "child = (case link n ! j of Some ch \<Rightarrow> ch | None \<Rightarrow> new_node)"
  shows "aggregate_ok (j = 0) child \<and> nonneg (j = 0) child"
proof (cases "link n ! j")
  case None
  then show ?thesis using assms(4) new_node_ok by simp
next
  case (Some ch)
  then show ?thesis
    using assms nonneg_child [of False n j ch] by (simp add: descendants_ok_iff)
qed

text \<open>The node whose aggregate is raised after the recursive call, or after the increment.\<close>

lemma raise_aggregate:
  assumes c: "aggregate_ok fl c" "nonneg fl c"
    and c': "descendants_ok c'" "nonneg False c'" "mx False c' = max (mx False c) u"
    and f: "frequency c \<le> f"
    and b: "b = max (best_sub_frequency c) (max u (if fl then f else 0))"
    and l: "link c'' = link c'" "frequency c'' = f" "best_sub_frequency c'' = b"
  shows "aggregate_ok fl c'' \<and> nonneg fl c''"
proof -
  have bc: "best_sub_frequency c = mx fl c"
    using c by (simp add: aggregate_ok_iff max_end_frequency_mx)
  have f0: "fl \<longrightarrow> 0 \<le> f"
    using c(2) f by (auto simp: nonneg_flag [of fl c])
  have nn: "nonneg fl c''"
    using f0 c'(2) l nonneg_False_cong [of c'' c'] by (simp add: nonneg_flag [of fl c''])
  have d: "descendants_ok c''"
    using c'(1) l descendants_ok_cong [of c'' c'] by simp
  have m: "mx False c'' = max (mx False c) u"
    using c'(3) l mx_False_cong [of c'' c'] by simp
  have lhs: "mx fl c'' = (if fl then max f (max (mx False c) u) else max (mx False c) u)"
    using mx_flag [of fl c''] m l by simp
  have rhs: "b = max (if fl then max (frequency c) (mx False c) else mx False c) (max u (if fl then f else 0))"
    using mx_flag [of fl c] by (simp add: b bc)
  have "mx fl c'' = b"
    unfolding lhs rhs using f mx_nonneg [of False c] by (auto simp: max_def)
  then show ?thesis
    using nn d l by (simp add: aggregate_ok_iff max_end_frequency_mx)
qed

lemma if_max: "(if (x::int) < f then f else x) = max x f"
  by auto

lemma py_pos_bound: "py_pos n i = Some j \<Longrightarrow> j < n"
  by (auto simp: py_pos_def split: if_splits)

lemma insert_recur_aux_inv:
  assumes "insert_recur_aux n key = Inr (n', v)" "descendants_ok n" "nonneg False n"
  shows "descendants_ok n' \<and> nonneg False n' \<and> mx False n' = max (mx False n) v \<and>
         frequency n' = frequency n \<and> best_sub_frequency n' = best_sub_frequency n"
  using assms
proof (induction key arbitrary: n n' v)
  case Nil
  from Nil.prems(1) have len: "0 < length (link n)"
    by (auto simp: py_pos_def split: option.splits if_splits)
  define t where "t = (case link n ! 0 of Some ch \<Rightarrow> ch | None \<Rightarrow> new_node)"
  define f where "f = frequency t + 1"
  define b where "b = max (best_sub_frequency t) f"
  define t' where "t' = Node (link t) f b"
  have t_alt: "t = (case link n ! 0 of None \<Rightarrow> new_node | Some ch \<Rightarrow> ch)"
    by (simp add: t_def split: option.splits)
  have res: "n' = Node ((link n)[0 := Some t']) (frequency n) (best_sub_frequency n)" "v = b"
    using Nil.prems(1) len
    by (auto simp: py_pos_def Let_def t_alt [symmetric] f_def b_def t'_def if_max)
  have tok: "aggregate_ok ((0::nat) = 0) t \<and> nonneg ((0::nat) = 0) t"
    using child_ok [OF len Nil.prems(2,3) t_def] .
  have bt: "best_sub_frequency t = max (frequency t) (mx False t)"
    using tok by (simp add: aggregate_ok_iff max_end_frequency_mx mx_True)
  have t'ok: "aggregate_ok True t' \<and> nonneg True t'"
  proof (rule raise_aggregate [where c = t and c' = t and u = 0 and f = f and b = b])
    show "aggregate_ok True t" "nonneg True t" using tok by simp_all
    show "descendants_ok t" using tok by (simp add: aggregate_ok_iff)
    show "nonneg False t" using tok nonneg_False by blast
    show "mx False t = max (mx False t) 0" using mx_nonneg [of False t] by simp
    show "frequency t \<le> f" by (simp add: f_def)
    show "b = max (best_sub_frequency t) (max 0 (if True then f else 0))"
      using mx_nonneg [of False t] by (simp add: b_def bt max_def)
    show "link t' = link t" "frequency t' = f" "best_sub_frequency t' = b" by (simp_all add: t'_def)
  qed
  have "descendants_ok n' \<and> nonneg False n' \<and> mx False n' = max (mx False n) (best_sub_frequency t')"
  proof (rule slot_update [where j = 0 and child = t and c = t'])
    show "0 < length (link n)" by (rule len)
    show "descendants_ok n" "nonneg False n" by (rule Nil.prems)+
    show "t = (case link n ! 0 of None \<Rightarrow> new_node | Some ch \<Rightarrow> ch)" by (rule t_alt)
    show "aggregate_ok ((0::nat) = 0) t'" "nonneg ((0::nat) = 0) t'" using t'ok by simp_all
    show "best_sub_frequency t \<le> best_sub_frequency t'" by (simp add: t'_def b_def)
    show "n' = Node ((link n)[0 := Some t']) (frequency n) (best_sub_frequency n)" by (rule res)
  qed
  then show ?case using res by (simp add: t'_def)
next
  case (Cons ch key)
  from Cons.prems(1) obtain j where j: "py_pos (length (link n)) (ord ch - 97 + 1) = Some j"
    by (auto split: option.splits)
  then have len: "j < length (link n)" by (rule py_pos_bound)
  define c where "c = (case link n ! j of Some x \<Rightarrow> x | None \<Rightarrow> new_node)"
  from Cons.prems(1) j obtain c' sub where rec: "insert_recur_aux c key = Inr (c', sub)"
    by (auto simp: Let_def c_def split: sum.splits)
  define b where "b = max (best_sub_frequency c') sub"
  define c'' where "c'' = Node (link c') (frequency c') b"
  have res: "n' = Node ((link n)[j := Some c'']) (frequency n) (best_sub_frequency n)" "v = b"
    using Cons.prems(1) j rec
    by (auto simp: Let_def c_def [symmetric] b_def c''_def if_max)
  have cok: "aggregate_ok (j = 0) c \<and> nonneg (j = 0) c"
    using child_ok [OF len Cons.prems(2,3)] c_def by (simp split: option.splits)
  have ih: "descendants_ok c' \<and> nonneg False c' \<and> mx False c' = max (mx False c) sub \<and>
         frequency c' = frequency c \<and> best_sub_frequency c' = best_sub_frequency c"
  proof (rule Cons.IH [OF rec])
    show "descendants_ok c" using cok by (simp add: aggregate_ok_iff)
    show "nonneg False c" using cok nonneg_False by blast
  qed
  have c''ok: "aggregate_ok (j = 0) c'' \<and> nonneg (j = 0) c''"
  proof (rule raise_aggregate [where c = c and c' = c' and u = sub and f = "frequency c'" and b = b])
    show "aggregate_ok (j = 0) c" "nonneg (j = 0) c" using cok by simp_all
    show "descendants_ok c'" "nonneg False c'" "mx False c' = max (mx False c) sub" using ih by simp_all
    show "frequency c \<le> frequency c'" using ih by simp
    have "best_sub_frequency c = mx (j = 0) c"
      using cok by (simp add: aggregate_ok_iff max_end_frequency_mx)
    then have "frequency c' \<le> best_sub_frequency c" if "j = 0"
      using that ih by (simp add: mx_True)
    moreover have "0 \<le> best_sub_frequency c"
      using \<open>best_sub_frequency c = mx (j = 0) c\<close> mx_nonneg [of "j = 0" c] by simp
    ultimately show "b = max (best_sub_frequency c) (max sub (if j = 0 then frequency c' else 0))"
      using ih by (auto simp: b_def max_def)
    show "link c'' = link c'" "frequency c'' = frequency c'" "best_sub_frequency c'' = b"
      by (simp_all add: c''_def)
  qed
  have "descendants_ok n' \<and> nonneg False n' \<and> mx False n' = max (mx False n) (best_sub_frequency c'')"
  proof (rule slot_update [where j = j and child = c and c = c''])
    show "j < length (link n)" by (rule len)
    show "descendants_ok n" "nonneg False n" by (rule Cons.prems)+
    show "c = (case link n ! j of None \<Rightarrow> new_node | Some x \<Rightarrow> x)"
      by (simp add: c_def split: option.splits)
    show "aggregate_ok (j = 0) c''" "nonneg (j = 0) c''" using c''ok by simp_all
    show "best_sub_frequency c \<le> best_sub_frequency c''" using ih by (simp add: c''_def b_def)
    show "n' = Node ((link n)[j := Some c'']) (frequency n) (best_sub_frequency n)" by (rule res)
  qed
  then show ?case using res by (simp add: c''_def)
qed

lemma insert_recur_inv:
  assumes "insert_recur self key = Inr self'"
    and "descendants_ok (root self)" "nonneg False (root self)"
  shows "descendants_ok (root self') \<and> nonneg False (root self') \<and>
         best_sub_frequency (root self') = best_sub_frequency (root self)"
proof -
  from assms(1) obtain r v where r: "insert_recur_aux (root self) key = Inr (r, v)" "self' = self\<lparr>root := r\<rparr>"
    by (auto simp: insert_recur_def split: sum.splits)
  from insert_recur_aux_inv [OF r(1) assms(2,3)] r(2) show ?thesis by simp
qed

lemma insert_sentences_inv:
  assumes "insert_sentences self sentences = Inr t"
    and "descendants_ok (root self)" "nonneg False (root self)"
  shows "descendants_ok (root t) \<and> nonneg False (root t) \<and>
         best_sub_frequency (root t) = best_sub_frequency (root self)"
  using assms
proof (induction sentences arbitrary: self)
  case Nil
  then show ?case by simp
next
  case (Cons sentence sentences)
  from Cons.prems(1) obtain self' where s: "insert_recur self sentence = Inr self'"
    "insert_sentences self' sentences = Inr t"
    by (auto split: sum.splits)
  from insert_recur_inv [OF s(1) Cons.prems(2,3)] Cons.IH [OF s(2)] show ?case by simp
qed

lemma CatsTrie_init_inv:
  assumes "CatsTrie_init sentences = Inr t"
  shows "descendants_ok (root t) \<and> nonneg False (root t) \<and> best_sub_frequency (root t) = 0"
proof -
  have "descendants_ok new_node" "nonneg False new_node"
    using new_node_ok [of False] by (simp_all add: aggregate_ok_iff)
  then show ?thesis
    using insert_sentences_inv [of "\<lparr>root = new_node\<rparr>" sentences t] assms
    by (simp add: CatsTrie_init_def new_node_sel)
qed

section \<open>Claims about the aggregates\<close>

text \<open>
  C5. After the constructor has inserted any sequence of sentences without raising, every
  node other than the root carries the maximum end-frequency of the terminator nodes in its
  subtree as its \<^verbatim>\<open>best_sub_frequency\<close>.
\<close>

theorem aggregate_below_root:
  "CatsTrie_init sentences = Inr t \<Longrightarrow> descendants_ok (root t)"
  using CatsTrie_init_inv by blast

theorem aggregate_below_root_witness:
  "\<not> isl (CatsTrie_init [''ab'', ''a'', ''ab'', ''ca'']) \<and>
   descendants_ok (root (projr (CatsTrie_init [''ab'', ''a'', ''ab'', ''ca''])))"
proof -
  have r: "\<not> isl (CatsTrie_init [''ab'', ''a'', ''ab'', ''ca''])"
    by code_simp
  then have "CatsTrie_init [''ab'', ''a'', ''ab'', ''ca''] =
      Inr (projr (CatsTrie_init [''ab'', ''a'', ''ab'', ''ca'']))"
    by simp
  from aggregate_below_root [OF this] r show ?thesis by simp
qed

text \<open>
  C6. The root's \<^verbatim>\<open>best_sub_frequency\<close> is 0 after construction, for every corpus: no
  insertion writes the aggregate of the node it is first called with.
\<close>

theorem root_aggregate_zero:
  "CatsTrie_init sentences = Inr t \<Longrightarrow> best_sub_frequency (root t) = 0"
  using CatsTrie_init_inv by blast

theorem root_aggregate_zero_witness:
  "\<not> isl (CatsTrie_init [''ab'', ''a'', ''ab'']) \<and>
   best_sub_frequency (root (projr (CatsTrie_init [''ab'', ''a'', ''ab'']))) = 0"
proof -
  have r: "\<not> isl (CatsTrie_init [''ab'', ''a'', ''ab''])"
    by code_simp
  then have "CatsTrie_init [''ab'', ''a'', ''ab''] = Inr (projr (CatsTrie_init [''ab'', ''a'', ''ab'']))"
    by simp
  from root_aggregate_zero [OF this] r show ?thesis by simp
qed

text \<open>
  C2. The claim asks for the aggregate invariant at every node including the root. For the
  corpus \<^verbatim>\<open>["a"]\<close> the root's \<^verbatim>\<open>best_sub_frequency\<close> is 0 although the terminator node
  of "a" below it has end-frequency 1.
\<close>

theorem root_aggregate_stale:
  "\<exists>t. CatsTrie_init [''a''] = Inr t \<and> best_sub_frequency (root t) = 0 \<and>
       max_end_frequency False (root t) = 1 \<and> \<not> aggregate_ok False (root t)"
proof -
  have "\<not> isl (CatsTrie_init [''a''])"
    by code_simp
  then have "CatsTrie_init [''a''] = Inr (projr (CatsTrie_init [''a'']))"
    by simp
  moreover have "best_sub_frequency (root (projr (CatsTrie_init [''a'']))) = 0"
    by code_simp
  moreover have "max_end_frequency False (root (projr (CatsTrie_init [''a'']))) = 1"
    by code_simp
  moreover have "\<not> aggregate_ok False (root (projr (CatsTrie_init [''a''])))"
    by code_simp
  ultimately show ?thesis by blast
qed

section \<open>The examples\<close>

text \<open>
  C7. For the corpus of the script, \<^verbatim>\<open>autoComplete("ab")\<close> returns \<^verbatim>\<open>"abazacy"\<close>.
\<close>

theorem example_ab:
  "build_and_query
     [''abc'', ''abazacy'', ''dbcef'', ''xzz'', ''gdbc'', ''abazacy'', ''xyz'',
      ''abazacy'', ''dbcef'', ''xyz'', ''xxx'', ''xzz'']
     ''ab'' = Inr (Some ''abazacy'')"
  by code_simp

text \<open>
  C8. For the corpus \<^verbatim>\<open>["a", "a", "aa"]\<close>, \<^verbatim>\<open>autoComplete("a")\<close> returns \<^verbatim>\<open>"a"\<close>: at the
  node located for "a" the terminator has end-frequency 2, the scan of the letter children
  ends with the maximum 1, and the descent stops there.
\<close>

theorem example_a_a_aa:
  "\<exists>t n. CatsTrie_init [''a'', ''a'', ''aa''] = Inr t \<and>
      findNode t ''a'' = Inr (Some n) \<and>
      map_option frequency (link n ! 0) = Some 2 \<and>
      map_sum id fst (best_sub_scan (link n) [1..<27] (- 1, None)) = Inr 1 \<and>
      autoComplete t ''a'' = Inr (Some ''a'')"
proof -
  let ?t = "projr (CatsTrie_init [''a'', ''a'', ''aa''])"
  let ?n = "the (projr (findNode ?t ''a''))"
  have "\<not> isl (CatsTrie_init [''a'', ''a'', ''aa''])"
    by code_simp
  then have t: "CatsTrie_init [''a'', ''a'', ''aa''] = Inr ?t"
    by simp
  have "\<not> isl (findNode ?t ''a'')" "projr (findNode ?t ''a'') \<noteq> None"
    by code_simp+
  then have n: "findNode ?t ''a'' = Inr (Some ?n)"
    by simp
  have f: "map_option frequency (link ?n ! 0) = Some 2"
    by code_simp
  have s: "map_sum id fst (best_sub_scan (link ?n) [1..<27] (- 1, None)) = Inr 1"
    by code_simp
  have a: "autoComplete ?t ''a'' = Inr (Some ''a'')"
    by code_simp
  from t n f s a show ?thesis by blast
qed

text \<open>
  C3. The claim asks for the absent result whenever the prompt is not a prefix of a stored
  sentence, in particular for every prompt on the empty corpus. On the empty corpus the
  empty prompt is answered with the empty string: \<^verbatim>\<open>findNode\<close> returns the root, which has
  no letter children, and \<^verbatim>\<open>autoCompleteAux\<close> returns the word built so far.
\<close>

theorem empty_corpus_empty_prompt:
  "build_and_query [] [] = Inr (Some [])"
  by code_simp


end
